theory Spec2Isabelle
  imports Main "HOL-Library.Finite_Map" "HOL-Library.Multiset"
begin

section \<open>Errors\<close>

text \<open>
  The exceptions the modelled functions of \<^verbatim>\<open>tinynn/graph/quantization/quantizer.py\<close>
  can raise. A failed \<^verbatim>\<open>assert\<close> carries its message.
\<close>

datatype error =
    AssertionError string
  | IndexError
  | KeyError
  | NameError
  | ValueError
  | ZeroDivisionError

fun is_assertion :: "error + 'a \<Rightarrow> bool" where
  "is_assertion (Inl (AssertionError msg)) = True"
| "is_assertion r = False"

section \<open>Quantizer configuration and construction\<close>

text \<open>
  The \<^verbatim>\<open>config\<close> dictionary handed to a quantizer. A field is \<open>None\<close> when the key is
  absent, so that \<^verbatim>\<open>config.get(k, v)\<close> yields the default \<open>v\<close>. The two keys whose
  default is Python's \<^verbatim>\<open>None\<close> (\<^verbatim>\<open>is_input_quantized\<close>,
  \<^verbatim>\<open>disable_requantization_for_cat\<close>) and the two statistics keys do not distinguish an
  absent key from an explicit \<^verbatim>\<open>None\<close>, as the source does not either.
  The type \<open>'s\<close> stands for the statistics values.
\<close>

record 's config =
  cfg_rewrite_graph :: "bool option"
  cfg_force_overwrite :: "bool option"
  cfg_is_input_quantized :: "bool list option"
  cfg_backend :: "string option"
  cfg_remove_weights_after_load :: "bool option"
  cfg_asymmetric :: "bool option"
  cfg_per_tensor :: "bool option"
  cfg_disable_requantization_for_cat :: "bool option"
  cfg_quantized_input_stats :: "'s option"
  cfg_dynamic_lstm_quant :: "bool option"
  cfg_quantized_op_stats :: "'s option"
  cfg_set_quantizable_op_stats :: "bool option"

text \<open>The four quantizer classes; the last three derive from \<^verbatim>\<open>QATQuantizer\<close>.\<close>

datatype quantizer_class = QATQuantizer | BF16Quantizer | PostQuantizer | DynamicQuantizer

text \<open>A model is possibly wrapped in a data-parallel container, which the constructor strips.\<close>

datatype 'm model = DataParallel 'm | DistributedDataParallel 'm | PlainModel 'm

text \<open>The attributes of a quantizer object that construction assigns.\<close>

record ('m, 'd, 's) quantizer =
  model :: 'm
  dummy_input :: 'd
  work_dir :: string
  rewrite_graph :: bool
  force_overwrite :: bool
  is_input_quantized :: "bool list option"
  backend :: string
  remove_weights_after_load :: bool
  asymmetric :: bool
  per_tensor :: bool
  disable_requantization_for_cat :: "bool option"
  quantized_input_stats :: "'s option"
  dynamic_lstm_quant :: bool
  quantized_op_stats :: "'s option"
  set_quantizable_op_stats :: bool

definition get :: "'a option \<Rightarrow> 'a \<Rightarrow> 'a" where
  "get actual default_value = (case actual of None \<Rightarrow> default_value | Some v \<Rightarrow> v)"

text \<open>
  \<^verbatim>\<open>QATQuantizer.parse_config\<close>: every attribute is taken from the configuration, or
  from \<^verbatim>\<open>default_values\<close> when the key is absent. A configuration of \<^verbatim>\<open>None\<close> is the
  empty dictionary.
\<close>

definition empty_config :: "'s config" where
  "empty_config = \<lparr>cfg_rewrite_graph = None, cfg_force_overwrite = None,
     cfg_is_input_quantized = None, cfg_backend = None, cfg_remove_weights_after_load = None,
     cfg_asymmetric = None, cfg_per_tensor = None, cfg_disable_requantization_for_cat = None,
     cfg_quantized_input_stats = None, cfg_dynamic_lstm_quant = None,
     cfg_quantized_op_stats = None, cfg_set_quantizable_op_stats = None\<rparr>"

definition parse_config_base ::
  "('m, 'd, 's) quantizer \<Rightarrow> 's config option \<Rightarrow> ('m, 'd, 's) quantizer" where
  "parse_config_base self config =
     (let config = (case config of None \<Rightarrow> empty_config | Some c \<Rightarrow> c) in
      self\<lparr>rewrite_graph := get (cfg_rewrite_graph config) True,
           force_overwrite := get (cfg_force_overwrite config) True,
           is_input_quantized := cfg_is_input_quantized config,
           backend := get (cfg_backend config) ''qnnpack'',
           remove_weights_after_load := get (cfg_remove_weights_after_load config) False,
           asymmetric := get (cfg_asymmetric config) True,
           per_tensor := get (cfg_per_tensor config) True,
           disable_requantization_for_cat := cfg_disable_requantization_for_cat config,
           quantized_input_stats := cfg_quantized_input_stats config,
           dynamic_lstm_quant := get (cfg_dynamic_lstm_quant config) False,
           quantized_op_stats := cfg_quantized_op_stats config,
           set_quantizable_op_stats := get (cfg_set_quantizable_op_stats config) False\<rparr>)"

text \<open>
  \<^verbatim>\<open>parse_config\<close> as each class defines it. \<^verbatim>\<open>BF16Quantizer\<close> and
  \<^verbatim>\<open>DynamicQuantizer\<close> call the base method and switch the graph rewrite off;
  \<^verbatim>\<open>DynamicQuantizer\<close> then asserts on the two options it cannot honour.
  \<^verbatim>\<open>PostQuantizer\<close> inherits the base method.
\<close>

definition parse_config ::
  "quantizer_class \<Rightarrow> ('m, 'd, 's) quantizer \<Rightarrow> 's config option
     \<Rightarrow> error + ('m, 'd, 's) quantizer" where
  "parse_config cls self config =
     (case cls of
        QATQuantizer \<Rightarrow> Inr (parse_config_base self config)
      | PostQuantizer \<Rightarrow> Inr (parse_config_base self config)
      | BF16Quantizer \<Rightarrow> Inr ((parse_config_base self config)\<lparr>rewrite_graph := False\<rparr>)
      | DynamicQuantizer \<Rightarrow>
          (let self = (parse_config_base self config)\<lparr>rewrite_graph := False\<rparr> in
           if asymmetric self then
             Inl (AssertionError ''Asymmetric quantization is not supported for DynamicQuantizer'')
           else if \<not> per_tensor self then
             Inl (AssertionError ''Per-channel quantization is not supported for DynamicQuantizer'')
           else Inr self))"

text \<open>
  \<^verbatim>\<open>QATQuantizer.__init__\<close>, which every subclass constructor delegates to; the call
  \<^verbatim>\<open>self.parse_config(config)\<close> dispatches on the class. The attributes that
  \<^verbatim>\<open>parse_config\<close> assigns do not exist before it runs, so the object it starts from
  carries placeholders there. The two logging calls (platform and untested backend) change no
  state and are left out.
\<close>

definition new_object :: "'m \<Rightarrow> 'd \<Rightarrow> string \<Rightarrow> ('m, 'd, 's) quantizer" where
  "new_object m d w = \<lparr>model = m, dummy_input = d, work_dir = w, rewrite_graph = False,
     force_overwrite = False, is_input_quantized = None, backend = [],
     remove_weights_after_load = False, asymmetric = False, per_tensor = False,
     disable_requantization_for_cat = None, quantized_input_stats = None,
     dynamic_lstm_quant = False, quantized_op_stats = None,
     set_quantizable_op_stats = False\<rparr>"

definition init ::
  "quantizer_class \<Rightarrow> 'm model \<Rightarrow> 'd \<Rightarrow> string option \<Rightarrow> 's config option
     \<Rightarrow> error + ('m, 'd, 's) quantizer" where
  "init cls mdl dummy wd config =
     (let m = (case mdl of DataParallel x \<Rightarrow> x | DistributedDataParallel x \<Rightarrow> x
                 | PlainModel x \<Rightarrow> x);
          w = (case wd of None \<Rightarrow> ''out'' | Some d \<Rightarrow> d)
      in case parse_config cls (new_object m dummy w) config of
           Inl e \<Rightarrow> Inl e
         | Inr self \<Rightarrow>
             if backend self = ''fbgemm'' \<and> \<not> asymmetric self then
               Inl (AssertionError ''Symmetric quantizaton for FBGEMM not supported'')
             else if backend self = ''fbgemm'' \<and> per_tensor self then
               Inl (AssertionError
                 ''Per-tensor quantizaton for FBGEMM not supported, please use per-channel quantization instead'')
             else
               (let self = (if disable_requantization_for_cat self = None
                            then self\<lparr>disable_requantization_for_cat :=
                                        Some (\<not> per_tensor self)\<rparr>
                            else self)
                in if per_tensor self \<or> disable_requantization_for_cat self = Some True
                   then Inr self
                   else Inl (AssertionError
                     ''`disable_requantization_for_cat=True` is required for per-channel quantization'')))"

section \<open>Fusion rules and their prefix tree\<close>

text \<open>
  A fusion rule is a tuple of operator types, earliest producer first. An operator type is a
  module class, or the kind of a traced function (a string such as \<^verbatim>\<open>add\<close>); this is the
  value \<^verbatim>\<open>cur_class\<close> that \<^verbatim>\<open>is_fusable\<close> computes for a node.
\<close>

datatype op_type = ModuleClass string | FunctionKind string

text \<open>
  The compiled rules are nested dictionaries: a key maps to the pair
  \<^verbatim>\<open>[has_key, child_nodes]\<close>. Dictionaries are finite maps, so that two of them are equal
  exactly when Python's \<^verbatim>\<open>==\<close> says so.
\<close>

datatype 'k rule_node = RuleNode (has_key: bool) (child_nodes: "('k, 'k rule_node) fmap")

type_synonym 'k rule_dict = "('k, 'k rule_node) fmap"

text \<open>
  The inner loop of \<^verbatim>\<open>load_processed_qat_rules\<close> for one rule, whose types arrive already
  reversed: \<^verbatim>\<open>setdefault\<close> creates a missing child, the walk descends into it, and the
  pair reached last gets \<^verbatim>\<open>has_key = True\<close>. The in-place updates of the nested
  dictionaries are written as the rebuilt dictionary.
\<close>

fun insert_rule :: "'k list \<Rightarrow> 'k rule_dict \<Rightarrow> 'k rule_dict" where
  "insert_rule [] d = d"
| "insert_rule [c] d =
     (case fmlookup d c of
        None \<Rightarrow> fmupd c (RuleNode True fmempty) d
      | Some (RuleNode b cs) \<Rightarrow> fmupd c (RuleNode True cs) d)"
| "insert_rule (c # cs) d =
     (case fmlookup d c of
        None \<Rightarrow> fmupd c (RuleNode False (insert_rule cs fmempty)) d
      | Some (RuleNode b ch) \<Rightarrow> fmupd c (RuleNode b (insert_rule cs ch)) d)"

text \<open>
  The outer loop. The variable \<^verbatim>\<open>base_rule_pair\<close> is function-local: for an empty rule the
  inner loop does not run and \<^verbatim>\<open>base_rule_pair[0] = True\<close> hits the pair left by the
  previous rule, whose flag is set already, or raises when no rule came before
  (\<open>bound\<close> tells whether the variable is bound).
\<close>

fun compile_rules :: "'k list list \<Rightarrow> bool \<Rightarrow> 'k rule_dict \<Rightarrow> error + 'k rule_dict" where
  "compile_rules [] bound d = Inr d"
| "compile_rules (r # rs) bound d =
     (if r = [] then (if bound then compile_rules rs bound d else Inl NameError)
      else compile_rules rs True (insert_rule (rev r) d))"

text \<open>
  \<^verbatim>\<open>sorted(rules, key=lambda x: len(x), reverse=True)\<close>: a stable sort by descending
  length. The argument list is the rule set in its iteration order.
\<close>

definition sorted_rules :: "'k list list \<Rightarrow> 'k list list" where
  "sorted_rules rules = sort_key (\<lambda>x. - int (length x)) rules"

text \<open>
  The body shared by \<^verbatim>\<open>load_processed_qat_rules\<close>, \<^verbatim>\<open>load_processed_ptq_rules\<close> and
  \<^verbatim>\<open>load_processed_extra_qat_rules\<close>: the module-level dictionary \<open>processed\<close> is filled
  on the first call and returned as it is afterwards. The result is the returned dictionary
  together with the new value of the module-level one (the same object).
\<close>

definition load_processed_rules ::
  "'k list list \<Rightarrow> 'k rule_dict \<Rightarrow> error + ('k rule_dict \<times> 'k rule_dict)" where
  "load_processed_rules rules processed =
     (if processed = fmempty then
        (case compile_rules (sorted_rules rules) False fmempty of
           Inl e \<Rightarrow> Inl e
         | Inr rule_dict \<Rightarrow> Inr (processed ++\<^sub>f rule_dict, processed ++\<^sub>f rule_dict))
      else Inr (processed, processed))"

text \<open>The rule tables, in the order the source lists them.\<close>

definition FUSE_RULE_LIST :: "op_type list list" where
  "FUSE_RULE_LIST =
     [[ModuleClass ''Conv1d'', ModuleClass ''BatchNorm1d''],
      [ModuleClass ''Conv1d'', ModuleClass ''BatchNorm1d'', ModuleClass ''ReLU''],
      [ModuleClass ''Conv2d'', ModuleClass ''BatchNorm2d''],
      [ModuleClass ''Conv2d'', ModuleClass ''BatchNorm2d'', ModuleClass ''ReLU''],
      [ModuleClass ''Conv3d'', ModuleClass ''BatchNorm3d''],
      [ModuleClass ''Conv3d'', ModuleClass ''BatchNorm3d'', ModuleClass ''ReLU''],
      [ModuleClass ''Conv1d'', ModuleClass ''ReLU''],
      [ModuleClass ''Conv2d'', ModuleClass ''ReLU''],
      [ModuleClass ''Conv3d'', ModuleClass ''ReLU''],
      [ModuleClass ''Linear'', ModuleClass ''ReLU''],
      [ModuleClass ''BatchNorm2d'', ModuleClass ''ReLU''],
      [ModuleClass ''BatchNorm3d'', ModuleClass ''ReLU'']]"

definition load_processed_qat_rules ::
  "op_type rule_dict \<Rightarrow> error + (op_type rule_dict \<times> op_type rule_dict)" where
  "load_processed_qat_rules processed_qat_rules =
     load_processed_rules FUSE_RULE_LIST processed_qat_rules"

text \<open>
  Reading a compiled dictionary along a lookup path: the terminal flags met on the way, and
  whether the whole path exists and ends on a set flag.
\<close>

fun trie_flags :: "'k rule_dict \<Rightarrow> 'k list \<Rightarrow> bool list" where
  "trie_flags d [] = []"
| "trie_flags d (c # cs) =
     (case fmlookup d c of None \<Rightarrow> [] | Some (RuleNode b ch) \<Rightarrow> b # trie_flags ch cs)"

fun terminal_at :: "'k rule_dict \<Rightarrow> 'k list \<Rightarrow> bool" where
  "terminal_at d [] = False"
| "terminal_at d [c] = (case fmlookup d c of None \<Rightarrow> False | Some n \<Rightarrow> has_key n)"
| "terminal_at d (c # cs) =
     (case fmlookup d c of None \<Rightarrow> False | Some n \<Rightarrow> terminal_at (child_nodes n) cs)"

text \<open>The same insertion seen from the pair that owns the dictionary (used in the proofs).\<close>

fun ins_node :: "'k list \<Rightarrow> 'k rule_node \<Rightarrow> 'k rule_node" where
  "ins_node [] (RuleNode b ch) = RuleNode True ch"
| "ins_node (c # cs) (RuleNode b ch) =
     RuleNode b (fmupd c (ins_node cs
        (case fmlookup ch c of None \<Rightarrow> RuleNode False fmempty | Some n \<Rightarrow> n)) ch)"

section \<open>The traced graph\<close>

text \<open>
  A node is referred to by its unique name, the key of \<^verbatim>\<open>graph.nodes_map\<close>; the lists of
  predecessors, successors, inputs, outputs and constants hold such names where the source
  holds the objects. Of a node's module only its identity, its operator type and, for the
  output tensors, the dtypes are read by the functions modelled here. Looking a name up that
  the graph does not hold raises \<^verbatim>\<open>KeyError\<close>, as \<^verbatim>\<open>graph.nodes_map[name]\<close> does; with
  object references this cannot happen in the source.
\<close>

datatype dtype = float32 | other_dtype

record node =
  module_id :: nat
  module_type :: op_type
  full_name :: string
  prev_nodes :: "string list"
  next_nodes :: "string list"
  next_tensors :: "dtype list"
  quantized :: bool

record graph =
  nodes_map :: "(string, node) fmap"
  input_nodes :: "string list"
  output_nodes :: "string list"
  constant_nodes :: "string list"
  forward_nodes :: "string list"
  module_original_name_dict :: "(nat, string) fmap"
  quantized :: bool

section \<open>The fusion matcher\<close>

text \<open>
  \<^verbatim>\<open>custom_data\<close> is the pair of the chains found so far and the set of consumed names.
\<close>

type_synonym custom_data = "string list list \<times> string set"

text \<open>The name a node goes by: its module's original name, or its own unique name.\<close>

definition cur_name_of :: "graph \<Rightarrow> bool \<Rightarrow> string \<Rightarrow> node \<Rightarrow> error + string" where
  "cur_name_of g use_original_name cur_node cur =
     (if use_original_name then
        (case fmlookup (module_original_name_dict g) (module_id cur) of
           None \<Rightarrow> Inl KeyError | Some n \<Rightarrow> Inr n)
      else Inr cur_node)"

text \<open>
  The loop of \<^verbatim>\<open>is_fusable\<close>. Each round descends one level in the rule dictionary, which
  is what bounds the loop. The result is \<^verbatim>\<open>final_names\<close> when the loop is left.
\<close>

definition rule_dict_size :: "'k rule_dict \<Rightarrow> nat" where
  "rule_dict_size d = size (RuleNode False d)"

lemma size_lookup:
  assumes "fmlookup m k = Some t"
  shows "size t < size (RuleNode b m)"
proof -
  have mem: "(k, t) \<in> fset (fset_of_fmap m)"
    using assms by (simp add: fset_of_fmap_iff')
  have "Suc (size t) \<le> (\<Sum>x\<in>fset (fset_of_fmap m). Suc (case x of (a, b) \<Rightarrow> size b))"
    using member_le_sum[of "(k, t)" "fset (fset_of_fmap m)" "\<lambda>x. Suc (case x of (a, b) \<Rightarrow> size b)"] mem
    by simp
  then show ?thesis by simp
qed

lemma rule_dict_size_child:
  assumes "fmlookup d k = Some (RuleNode b d')"
  shows "rule_dict_size d' < rule_dict_size d"
proof -
  have "size (RuleNode b d') < size (RuleNode False d)"
    using assms by (rule size_lookup)
  then show ?thesis by (simp add: rule_dict_size_def)
qed

function walk ::
  "graph \<Rightarrow> bool \<Rightarrow> string set \<Rightarrow> op_type rule_dict \<Rightarrow> string \<Rightarrow> string list \<Rightarrow> string list
     \<Rightarrow> error + string list" where
  "walk g use_original_name consumed current_rules cur_node names final_names =
     (case fmlookup (nodes_map g) cur_node of
        None \<Rightarrow> Inl KeyError
      | Some cur \<Rightarrow>
         (case fmlookup current_rules (module_type cur) of
            None \<Rightarrow> Inr final_names
          | Some (RuleNode current_state children) \<Rightarrow>
             (case cur_name_of g use_original_name cur_node cur of
                Inl e \<Rightarrow> Inl e
              | Inr cur_name \<Rightarrow>
                 if cur_name \<in> consumed then Inr final_names
                 else if prev_nodes cur = [] then Inr final_names
                 else
                   (let names = names @ [cur_name];
                        final_names = (if current_state then names else final_names)
                    in if length (prev_nodes cur) \<noteq> 1 then Inr final_names
                       else walk g use_original_name consumed children (hd (prev_nodes cur))
                              names final_names))))"
  by pat_completeness auto
termination
  by (relation "measure (\<lambda>(g, u, c, rules, n, ns, fs). rule_dict_size rules)")
     (auto intro: rule_dict_size_child)

declare walk.simps [simp del]

definition is_fusable ::
  "string \<Rightarrow> custom_data \<Rightarrow> op_type rule_dict option \<Rightarrow> bool \<Rightarrow> bool \<Rightarrow> graph
     \<Rightarrow> error + (bool \<times> custom_data)" where
  "is_fusable node custom_data current_rules check_node_quantized use_original_name g =
     (case current_rules of
        None \<Rightarrow> Inr (False, custom_data)
      | Some rules \<Rightarrow>
         (case fmlookup (nodes_map g) node of
            None \<Rightarrow> Inl KeyError
          | Some n \<Rightarrow>
             if check_node_quantized \<and> \<not> node.quantized n then Inr (False, custom_data)
             else
               (case walk g use_original_name (snd custom_data) rules node [] [] of
                  Inl e \<Rightarrow> Inl e
                | Inr final_names \<Rightarrow>
                   if length final_names > 0 then
                     (let final_names = rev final_names in
                      Inr (True, (fst custom_data @ [final_names],
                                  snd custom_data \<union> set final_names)))
                   else Inr (False, custom_data))))"

text \<open>Calls of \<^verbatim>\<open>is_fusable\<close> one after the other, each handed the \<^verbatim>\<open>custom_data\<close> the
  previous one left; an exception ends the sequence.\<close>

type_synonym call = "string \<times> op_type rule_dict option \<times> bool \<times> bool \<times> graph"

fun repeated_is_fusable :: "call list \<Rightarrow> custom_data \<Rightarrow> error + custom_data" where
  "repeated_is_fusable [] custom_data = Inr custom_data"
| "repeated_is_fusable ((node, current_rules, check_node_quantized, use_original_name, g) # cs)
       custom_data =
     (case is_fusable node custom_data current_rules check_node_quantized use_original_name g of
        Inl e \<Rightarrow> Inl e
      | Inr (found, custom_data') \<Rightarrow> repeated_is_fusable cs custom_data')"

text \<open>
  What the dedup property says of a \<^verbatim>\<open>custom_data\<close>: every name of a chain is in the
  consumed set, and no two chains share a name.
\<close>

definition chains_consumed :: "custom_data \<Rightarrow> bool" where
  "chains_consumed cd = (\<forall>c \<in> set (fst cd). set c \<subseteq> snd cd)"

definition chains_disjoint :: "string list list \<Rightarrow> bool" where
  "chains_disjoint cs =
     (\<forall>i j. i < j \<and> j < length cs \<longrightarrow> set (cs ! i) \<inter> set (cs ! j) = {})"

text \<open>
  The nodes that the loop appends to \<^verbatim>\<open>names\<close>, each with the terminal flag
  \<^verbatim>\<open>current_state\<close> of the dictionary entry matched there. This is the loop of
  \<^verbatim>\<open>is_fusable\<close> again, keeping the flags instead of the snapshot; the snapshots are then
  replayed over it.
\<close>

function matched_chain ::
  "graph \<Rightarrow> bool \<Rightarrow> string set \<Rightarrow> op_type rule_dict \<Rightarrow> string \<Rightarrow> error + (string \<times> bool) list"
  where
  "matched_chain g use_original_name consumed current_rules cur_node =
     (case fmlookup (nodes_map g) cur_node of
        None \<Rightarrow> Inl KeyError
      | Some cur \<Rightarrow>
         (case fmlookup current_rules (module_type cur) of
            None \<Rightarrow> Inr []
          | Some (RuleNode current_state children) \<Rightarrow>
             (case cur_name_of g use_original_name cur_node cur of
                Inl e \<Rightarrow> Inl e
              | Inr cur_name \<Rightarrow>
                 if cur_name \<in> consumed then Inr []
                 else if prev_nodes cur = [] then Inr []
                 else if length (prev_nodes cur) \<noteq> 1 then Inr [(cur_name, current_state)]
                 else
                   (case matched_chain g use_original_name consumed children
                           (hd (prev_nodes cur)) of
                      Inl e \<Rightarrow> Inl e
                    | Inr rest \<Rightarrow> Inr ((cur_name, current_state) # rest)))))"
  by pat_completeness auto
termination
  by (relation "measure (\<lambda>(g, u, c, rules, n). rule_dict_size rules)")
     (auto intro: rule_dict_size_child)

declare matched_chain.simps [simp del]

fun snapshots :: "string list \<Rightarrow> string list \<Rightarrow> (string \<times> bool) list \<Rightarrow> string list" where
  "snapshots names final_names [] = final_names"
| "snapshots names final_names ((cur_name, current_state) # rest) =
     snapshots (names @ [cur_name])
       (if current_state then names @ [cur_name] else final_names) rest"

text \<open>The longest prefix of a chain that ends on a terminal flag.\<close>

definition longest_terminal_prefix :: "('a \<times> bool) list \<Rightarrow> ('a \<times> bool) list" where
  "longest_terminal_prefix ch = rev (dropWhile (\<lambda>x. \<not> snd x) (rev ch))"

section \<open>Quantization propagation\<close>

text \<open>
  The analysis at the head of \<^verbatim>\<open>prepare_qat_prep\<close>, up to the log line
  \<^verbatim>\<open>qat analysis over\<close>. The two stub classes are the module types it tests for.
\<close>

definition QuantStub :: op_type where "QuantStub = ModuleClass ''QuantStub''"

definition DeQuantStub :: op_type where "DeQuantStub = ModuleClass ''DeQuantStub''"

text \<open>
  The inner function \<^verbatim>\<open>_qat_analysis\<close>, called with a node and the flag that reached it.
  It returns the graph, the visited set and the entries it put on the queue. A visited node
  is left alone; an output node is marked visited and nothing else; any other node gets its
  flag assigned and its successors queued with the flag to propagate.
\<close>

definition qat_analysis ::
  "graph \<Rightarrow> string set \<Rightarrow> string \<Rightarrow> bool
     \<Rightarrow> error + (graph \<times> string set \<times> (string \<times> bool) list)" where
  "qat_analysis g visited node flag =
     (if node \<in> visited then Inr (g, visited, [])
      else
        (case fmlookup (nodes_map g) node of
           None \<Rightarrow> Inl KeyError
         | Some n \<Rightarrow>
            if node \<in> set (output_nodes g) then Inr (g, insert node visited, [])
            else if module_type n = QuantStub then
              Inr (g\<lparr>nodes_map := fmupd node (n\<lparr>node.quantized := True\<rparr>) (nodes_map g)\<rparr>,
                   insert node visited, map (\<lambda>m. (m, True)) (next_nodes n))
            else if module_type n = DeQuantStub then
              Inr (g\<lparr>nodes_map := fmupd node (n\<lparr>node.quantized := True\<rparr>) (nodes_map g)\<rparr>,
                   insert node visited, map (\<lambda>m. (m, False)) (next_nodes n))
            else
              Inr (g\<lparr>nodes_map := fmupd node (n\<lparr>node.quantized := flag\<rparr>) (nodes_map g)\<rparr>,
                   insert node visited, map (\<lambda>m. (m, flag)) (next_nodes n))))"

lemma qat_analysis_progress:
  assumes "qat_analysis g visited node flag = Inr (g', visited', new)"
  shows "fmdom' (nodes_map g') = fmdom' (nodes_map g)
         \<and> ((visited' = visited \<and> new = [])
            \<or> (visited' = insert node visited \<and> node \<notin> visited \<and> node \<in> fmdom' (nodes_map g)))"
  using assms
  by (auto simp: qat_analysis_def fmdom'I split: if_splits option.splits)

text \<open>
  The statement of the main loop that folds the dequeued flag into \<^verbatim>\<open>graph.quantized\<close>.
\<close>

definition mark_graph :: "graph \<Rightarrow> bool \<Rightarrow> graph" where
  "mark_graph g flag =
     (if \<not> graph.quantized g then g\<lparr>graph.quantized := graph.quantized g \<or> flag\<rparr> else g)"

lemma nodes_map_mark_graph [simp]: "nodes_map (mark_graph g q) = nodes_map g"
  by (simp add: mark_graph_def)

text \<open>
  The main loop over the queue (first in, first out). Every round either marks a node of the
  graph as visited or shortens the queue, which is why the loop ends.
\<close>

function qat_analysis_loop ::
  "graph \<Rightarrow> (string \<times> bool) list \<Rightarrow> string set \<Rightarrow> error + graph" where
  "qat_analysis_loop g [] visited = Inr g"
| "qat_analysis_loop g ((node, flag) # rest) visited =
     (case qat_analysis (mark_graph g flag) visited node flag of
        Inl e \<Rightarrow> Inl e
      | Inr (g', visited', new) \<Rightarrow> qat_analysis_loop g' (rest @ new) visited')"
  by pat_completeness auto
termination
proof (relation "measures [\<lambda>(g, queue, visited). card (fmdom' (nodes_map g) - visited),
                           \<lambda>(g, queue, visited). length queue]")
  show "wf (measures [\<lambda>(g, queue, visited). card (fmdom' (nodes_map g) - visited),
                      \<lambda>(g :: graph, queue :: (string \<times> bool) list, visited :: string set).
                         length queue])"
    by (rule wf_measures)
next
  fix g :: graph and node flag rest visited b g' y visited' new
  assume a: "qat_analysis (mark_graph g flag) visited node flag = Inr b"
    "(g', y) = b" "(visited', new) = y"
  then have r: "qat_analysis (mark_graph g flag) visited node flag = Inr (g', visited', new)"
    by simp
  note p = qat_analysis_progress[OF r]
  have fin: "finite (fmdom' (nodes_map g))" by simp
  from p have dom: "fmdom' (nodes_map g') = fmdom' (nodes_map g)" by simp
  from p consider "visited' = visited \<and> new = []"
    | "visited' = insert node visited \<and> node \<notin> visited \<and> node \<in> fmdom' (nodes_map g)"
    by auto
  then show "((g', rest @ new, visited'), g, (node, flag) # rest, visited)
       \<in> measures [\<lambda>(g, queue, visited). card (fmdom' (nodes_map g) - visited),
                    \<lambda>(g, queue, visited). length queue]"
  proof cases
    case 1
    then show ?thesis by (simp add: dom)
  next
    case 2
    then have "fmdom' (nodes_map g) - visited' \<subset> fmdom' (nodes_map g) - visited"
      by auto
    then have "card (fmdom' (nodes_map g) - visited') < card (fmdom' (nodes_map g) - visited)"
      by (intro psubset_card_mono) (simp_all add: fin)
    then show ?thesis by (simp add: dom)
  qed
qed

declare qat_analysis_loop.simps(2) [simp del]

text \<open>
  Seeding. With \<^verbatim>\<open>is_input_quantized\<close> given, its length is asserted to be the number of
  input nodes and the two sequences are zipped; otherwise every input starts unquantized.
\<close>

definition input_seeds :: "graph \<Rightarrow> bool list option \<Rightarrow> error + (string \<times> bool) list" where
  "input_seeds g input_quantized =
     (case input_quantized of
        Some qs \<Rightarrow>
          if length qs = length (input_nodes g) then Inr (zip (input_nodes g) qs)
          else Inl (AssertionError [])
      | None \<Rightarrow> Inr (map (\<lambda>n. (n, False)) (input_nodes g)))"

text \<open>
  Modelled from the spec: \<^verbatim>\<open>TraceGraph.filter_forward_nodes\<close> belongs to the tracer, which
  is not among the sources; the specification describes it as the primitive that filters the
  nodes by a predicate and returns the matches in forward order. The predicate used here
  reads the node only.
\<close>

fun filter_nodes ::
  "(string, node) fmap \<Rightarrow> (node \<Rightarrow> bool) \<Rightarrow> string list \<Rightarrow> error + string list" where
  "filter_nodes m P [] = Inr []"
| "filter_nodes m P (k # ks) =
     (case fmlookup m k of
        None \<Rightarrow> Inl KeyError
      | Some n \<Rightarrow>
         (case filter_nodes m P ks of
            Inl e \<Rightarrow> Inl e
          | Inr r \<Rightarrow> Inr (if P n then k # r else r)))"

definition filter_forward_nodes :: "graph \<Rightarrow> (node \<Rightarrow> bool) \<Rightarrow> error + string list" where
  "filter_forward_nodes g P = filter_nodes (nodes_map g) P (forward_nodes g)"

text \<open>
  Every constant node, and every node whose full name is a creation function, is seeded with
  the flag \<^verbatim>\<open>not n.next_tensors[0].dtype == torch.float32\<close>; an empty tensor list raises
  \<^verbatim>\<open>IndexError\<close>. The names of the creation functions come from the tracer and are a
  parameter.
\<close>

fun constant_seeds ::
  "(string, node) fmap \<Rightarrow> string list \<Rightarrow> error + (string \<times> bool) list" where
  "constant_seeds m [] = Inr []"
| "constant_seeds m (k # ks) =
     (case fmlookup m k of
        None \<Rightarrow> Inl KeyError
      | Some n \<Rightarrow>
         (case next_tensors n of
            [] \<Rightarrow> Inl IndexError
          | t # ts \<Rightarrow>
             (case constant_seeds m ks of
                Inl e \<Rightarrow> Inl e
              | Inr r \<Rightarrow> Inr ((k, t \<noteq> float32) # r))))"

definition seeds :: "string list \<Rightarrow> graph \<Rightarrow> bool list option \<Rightarrow> error + (string \<times> bool) list"
  where
  "seeds creation_func_names g input_quantized =
     (case input_seeds g input_quantized of
        Inl e \<Rightarrow> Inl e
      | Inr from_inputs \<Rightarrow>
         (case filter_forward_nodes g (\<lambda>n. full_name n \<in> set creation_func_names) of
            Inl e \<Rightarrow> Inl e
          | Inr extra_constant_nodes \<Rightarrow>
             (case constant_seeds (nodes_map g) (constant_nodes g @ extra_constant_nodes) of
                Inl e \<Rightarrow> Inl e
              | Inr from_constants \<Rightarrow> Inr (from_inputs @ from_constants))))"

definition prepare_qat_prep :: "string list \<Rightarrow> graph \<Rightarrow> bool list option \<Rightarrow> error + graph" where
  "prepare_qat_prep creation_func_names g input_quantized =
     (case seeds creation_func_names g input_quantized of
        Inl e \<Rightarrow> Inl e
      | Inr queue \<Rightarrow> qat_analysis_loop g queue {})"

text \<open>
  Notions for stating what the analysis leaves behind: a node with its flag blanked, two
  graphs that differ in flags only, the successors of a name, the flag a node hands on (read
  from its final state), and the names the loop gets to from a queue, given the visited set:
  the queued names not yet visited, and the unvisited successors of reached nodes that are
  not outputs.
\<close>

definition erase :: "node \<Rightarrow> node" where
  "erase n = n\<lparr>node.quantized := False\<rparr>"

definition same_structure :: "graph \<Rightarrow> graph \<Rightarrow> bool" where
  "same_structure g g' \<longleftrightarrow>
     input_nodes g' = input_nodes g \<and> output_nodes g' = output_nodes g
     \<and> constant_nodes g' = constant_nodes g \<and> forward_nodes g' = forward_nodes g
     \<and> module_original_name_dict g' = module_original_name_dict g
     \<and> (\<forall>k. map_option erase (fmlookup (nodes_map g') k) =
              map_option erase (fmlookup (nodes_map g) k))"

definition succs :: "graph \<Rightarrow> string \<Rightarrow> string list" where
  "succs g p = (case fmlookup (nodes_map g) p of None \<Rightarrow> [] | Some n \<Rightarrow> next_nodes n)"

definition out_flag :: "graph \<Rightarrow> string \<Rightarrow> bool" where
  "out_flag g p =
     (case fmlookup (nodes_map g) p of
        None \<Rightarrow> False
      | Some n \<Rightarrow>
         if module_type n = QuantStub then True
         else if module_type n = DeQuantStub then False
         else node.quantized n)"

inductive_set reach ::
  "(string \<Rightarrow> string list) \<Rightarrow> string set \<Rightarrow> (string \<times> bool) list \<Rightarrow> string set \<Rightarrow> string set"
  for S :: "string \<Rightarrow> string list" and outs :: "string set"
    and queue :: "(string \<times> bool) list" and visited :: "string set" where
  seed: "(k, q) \<in> set queue \<Longrightarrow> k \<notin> visited \<Longrightarrow> k \<in> reach S outs queue visited"
| step: "p \<in> reach S outs queue visited \<Longrightarrow> p \<notin> outs \<Longrightarrow> m \<in> set (S p) \<Longrightarrow> m \<notin> visited
         \<Longrightarrow> m \<in> reach S outs queue visited"

section \<open>Example graphs\<close>

text \<open>
  A traced chain \<^verbatim>\<open>input -> conv1 -> bn1 -> relu1 -> conv2 -> relu2 -> output\<close>, every node
  flagged as quantized, and the dictionary compiled from \<^verbatim>\<open>FUSE_RULE_LIST\<close>.
\<close>

definition example_node :: "nat \<Rightarrow> op_type \<Rightarrow> string list \<Rightarrow> string list \<Rightarrow> node" where
  "example_node i t ps ns = \<lparr>module_id = i, module_type = t, full_name = [], prev_nodes = ps,
     next_nodes = ns, next_tensors = [float32], quantized = True\<rparr>"

definition example_graph :: graph where
  "example_graph =
     \<lparr>nodes_map = fmap_of_list
        [(''input_0'', example_node 0 (FunctionKind ''input'') [] [''conv_0'']),
         (''conv_0'', example_node 1 (ModuleClass ''Conv2d'') [''input_0''] [''bn_0'']),
         (''bn_0'', example_node 2 (ModuleClass ''BatchNorm2d'') [''conv_0''] [''relu_0'']),
         (''relu_0'', example_node 3 (ModuleClass ''ReLU'') [''bn_0''] [''conv_1'']),
         (''conv_1'', example_node 4 (ModuleClass ''Conv2d'') [''relu_0''] [''relu_1'']),
         (''relu_1'', example_node 5 (ModuleClass ''ReLU'') [''conv_1''] [''output_0'']),
         (''output_0'', example_node 6 (FunctionKind ''output'') [''relu_1''] [])],
      input_nodes = [''input_0''], output_nodes = [''output_0''], constant_nodes = [],
      forward_nodes = [''conv_0'', ''bn_0'', ''relu_0'', ''conv_1'', ''relu_1''],
      module_original_name_dict = fmap_of_list
        [(1, ''conv1''), (2, ''bn1''), (3, ''relu1''), (4, ''conv2''), (5, ''relu2'')],
      quantized = True\<rparr>"

definition example_rules :: "op_type rule_dict" where
  "example_rules = fold (\<lambda>r. insert_rule (rev r)) (sorted_rules FUSE_RULE_LIST) fmempty"

text \<open>The matcher called on every forward node, last node first, as the callers do.\<close>

definition example_calls :: "call list" where
  "example_calls =
     map (\<lambda>n. (n, Some example_rules, True, True, example_graph))
       (rev (forward_nodes example_graph))"

text \<open>A convolution without any predecessor, followed by an activation.\<close>

definition headless_graph :: graph where
  "headless_graph =
     \<lparr>nodes_map = fmap_of_list
        [(''conv_0'', example_node 1 (ModuleClass ''Conv2d'') [] [''relu_0'']),
         (''relu_0'', example_node 2 (ModuleClass ''ReLU'') [''conv_0''] [])],
      input_nodes = [], output_nodes = [], constant_nodes = [],
      forward_nodes = [''conv_0'', ''relu_0''],
      module_original_name_dict = fmap_of_list [(1, ''conv''), (2, ''relu'')],
      quantized = True\<rparr>"

text \<open>
  A graph \<^verbatim>\<open>input -> QuantStub -> conv -> DeQuantStub -> output\<close>; the arguments are the
  \<^verbatim>\<open>quantized\<close> flags of the five nodes and of the graph.
\<close>

definition plain_node :: "op_type \<Rightarrow> string list \<Rightarrow> string list \<Rightarrow> bool \<Rightarrow> node" where
  "plain_node t ps ns q = \<lparr>module_id = 0, module_type = t, full_name = [], prev_nodes = ps,
     next_nodes = ns, next_tensors = [float32], quantized = q\<rparr>"

definition stub_graph :: "bool \<Rightarrow> bool \<Rightarrow> bool \<Rightarrow> bool \<Rightarrow> bool \<Rightarrow> bool \<Rightarrow> graph" where
  "stub_graph qi qq qc qd qo gq =
     \<lparr>nodes_map = fmap_of_list
        [(''input_0'', plain_node (FunctionKind ''input'') [] [''quant_0''] qi),
         (''quant_0'', plain_node QuantStub [''input_0''] [''conv_0''] qq),
         (''conv_0'', plain_node (ModuleClass ''Conv2d'') [''quant_0''] [''dequant_0''] qc),
         (''dequant_0'', plain_node DeQuantStub [''conv_0''] [''output_0''] qd),
         (''output_0'', plain_node (FunctionKind ''output'') [''dequant_0''] [] qo)],
      input_nodes = [''input_0''], output_nodes = [''output_0''], constant_nodes = [],
      forward_nodes = [''quant_0'', ''conv_0'', ''dequant_0''],
      module_original_name_dict = fmempty,
      quantized = gq\<rparr>"

section \<open>Configuration checks\<close>

lemma parse_config_base_asymmetric:
  "asymmetric (parse_config_base self (Some c)) = get (cfg_asymmetric c) True"
  by (simp add: parse_config_base_def)

lemma parse_config_base_per_tensor:
  "per_tensor (parse_config_base self (Some c)) = get (cfg_per_tensor c) True"
  by (simp add: parse_config_base_def)

lemma parse_config_base_backend:
  "backend (parse_config_base self (Some c)) = get (cfg_backend c) ''qnnpack''"
  by (simp add: parse_config_base_def)

lemma parse_config_dynamic:
  "parse_config DynamicQuantizer self (Some c) =
     (if get (cfg_asymmetric c) True then
        Inl (AssertionError ''Asymmetric quantization is not supported for DynamicQuantizer'')
      else if \<not> get (cfg_per_tensor c) True then
        Inl (AssertionError ''Per-channel quantization is not supported for DynamicQuantizer'')
      else Inr ((parse_config_base self (Some c))\<lparr>rewrite_graph := False\<rparr>))"
  by (simp add: parse_config_def parse_config_base_def Let_def)

lemma init_parse_error:
  "parse_config cls (new_object (case mdl of DataParallel x \<Rightarrow> x
       | DistributedDataParallel x \<Rightarrow> x | PlainModel x \<Rightarrow> x) d
       (case wd of None \<Rightarrow> ''out'' | Some w \<Rightarrow> w)) config = Inl e
   \<Longrightarrow> init cls mdl d wd config = Inl e"
  by (simp add: init_def Let_def)

text \<open>
  C5. Constructing a \<^verbatim>\<open>DynamicQuantizer\<close> whose configuration resolves
  \<^verbatim>\<open>asymmetric\<close> to true fails with the assertion of \<^verbatim>\<open>parse_config\<close>, and so does one
  that resolves \<^verbatim>\<open>per_tensor\<close> to false. The failure is the result of the constructor
  itself, so no quantizer object exists on which \<^verbatim>\<open>quantize\<close> could trace a graph.
\<close>

theorem dynamic_quantizer_fails_fast:
  "(get (cfg_asymmetric c) True \<longrightarrow>
      init DynamicQuantizer mdl d wd (Some c) =
        Inl (AssertionError ''Asymmetric quantization is not supported for DynamicQuantizer''))
   \<and> (\<not> get (cfg_asymmetric c) True \<and> \<not> get (cfg_per_tensor c) True \<longrightarrow>
      init DynamicQuantizer mdl d wd (Some c) =
        Inl (AssertionError ''Per-channel quantization is not supported for DynamicQuantizer''))
   \<and> (get (cfg_asymmetric c) True \<or> \<not> get (cfg_per_tensor c) True \<longrightarrow>
      is_assertion (init DynamicQuantizer mdl d wd (Some c)))"
  by (simp add: init_def Let_def parse_config_dynamic)

theorem dynamic_quantizer_fails_fast_witness:
  "get (cfg_asymmetric ((empty_config :: unit config)\<lparr>cfg_asymmetric := Some True\<rparr>)) True
   \<and> init DynamicQuantizer (PlainModel ()) () None
        (Some ((empty_config :: unit config)\<lparr>cfg_asymmetric := Some True\<rparr>)) =
      Inl (AssertionError ''Asymmetric quantization is not supported for DynamicQuantizer'')
   \<and> \<not> get (cfg_asymmetric ((empty_config :: unit config)\<lparr>cfg_asymmetric := Some False,
          cfg_per_tensor := Some False\<rparr>)) True
   \<and> \<not> get (cfg_per_tensor ((empty_config :: unit config)\<lparr>cfg_asymmetric := Some False,
          cfg_per_tensor := Some False\<rparr>)) True
   \<and> is_assertion (init DynamicQuantizer (PlainModel ()) () None
        (Some ((empty_config :: unit config)\<lparr>cfg_asymmetric := Some False,
          cfg_per_tensor := Some False\<rparr>)))"
  using dynamic_quantizer_fails_fast
          [of "(empty_config :: unit config)\<lparr>cfg_asymmetric := Some True\<rparr>"
              "PlainModel ()" "()" None]
        dynamic_quantizer_fails_fast
          [of "(empty_config :: unit config)\<lparr>cfg_asymmetric := Some False,
                 cfg_per_tensor := Some False\<rparr>"
              "PlainModel ()" "()" None]
  by (simp add: get_def empty_config_def)

text \<open>
  C8. With the backend \<^verbatim>\<open>fbgemm\<close>, construction of a quantizer of any class fails with an
  assertion when \<^verbatim>\<open>asymmetric\<close> resolves to false, and when \<^verbatim>\<open>per_tensor\<close> resolves to
  true. For the classes that keep the base \<^verbatim>\<open>parse_config\<close> the assertion is the backend
  check of the constructor, which runs right after the configuration is read.
\<close>

theorem fbgemm_constraints_asserted:
  "cfg_backend c = Some ''fbgemm'' \<Longrightarrow>
     (\<not> get (cfg_asymmetric c) True \<longrightarrow> is_assertion (init cls mdl d wd (Some c)))
   \<and> (get (cfg_per_tensor c) True \<longrightarrow> is_assertion (init cls mdl d wd (Some c)))
   \<and> (cls \<noteq> DynamicQuantizer \<and> \<not> get (cfg_asymmetric c) True \<longrightarrow>
        init cls mdl d wd (Some c) =
          Inl (AssertionError ''Symmetric quantizaton for FBGEMM not supported''))
   \<and> (cls \<noteq> DynamicQuantizer \<and> get (cfg_asymmetric c) True \<and> get (cfg_per_tensor c) True \<longrightarrow>
        init cls mdl d wd (Some c) =
          Inl (AssertionError
            ''Per-tensor quantizaton for FBGEMM not supported, please use per-channel quantization instead''))"
  by (cases cls)
     (simp_all add: init_def Let_def parse_config_def parse_config_base_def get_def)

theorem fbgemm_constraints_asserted_witness:
  "cfg_backend ((empty_config :: unit config)\<lparr>cfg_backend := Some ''fbgemm'',
       cfg_asymmetric := Some False, cfg_per_tensor := Some False\<rparr>) = Some ''fbgemm''
   \<and> init QATQuantizer (PlainModel ()) () None
        (Some ((empty_config :: unit config)\<lparr>cfg_backend := Some ''fbgemm'',
           cfg_asymmetric := Some False, cfg_per_tensor := Some False\<rparr>)) =
      Inl (AssertionError ''Symmetric quantizaton for FBGEMM not supported'')
   \<and> cfg_backend ((empty_config :: unit config)\<lparr>cfg_backend := Some ''fbgemm''\<rparr>)
        = Some ''fbgemm''
   \<and> init PostQuantizer (PlainModel ()) () None
        (Some ((empty_config :: unit config)\<lparr>cfg_backend := Some ''fbgemm''\<rparr>)) =
      Inl (AssertionError
        ''Per-tensor quantizaton for FBGEMM not supported, please use per-channel quantization instead'')"
  using fbgemm_constraints_asserted
          [of "(empty_config :: unit config)\<lparr>cfg_backend := Some ''fbgemm'',
                 cfg_asymmetric := Some False, cfg_per_tensor := Some False\<rparr>"
              QATQuantizer "PlainModel ()" "()" None]
        fbgemm_constraints_asserted
          [of "(empty_config :: unit config)\<lparr>cfg_backend := Some ''fbgemm''\<rparr>"
              PostQuantizer "PlainModel ()" "()" None]
  by (simp add: get_def empty_config_def)

section \<open>Rule compilation\<close>

lemma terminal_at_empty [simp]: "terminal_at fmempty p = False"
  by (induction "fmempty :: ('a, 'a rule_node) fmap" p rule: terminal_at.induct) auto

lemma terminal_at_insert:
  "r \<noteq> [] \<Longrightarrow> terminal_at (insert_rule r d) p = (p = r \<or> terminal_at d p)"
proof (induction r d arbitrary: p rule: insert_rule.induct)
  case (1 d)
  then show ?case by simp
next
  case (2 c d)
  show ?case
  proof (cases p)
    case Nil
    then show ?thesis by simp
  next
    case (Cons a as)
    then show ?thesis
      by (cases as) (auto split: option.splits rule_node.splits)
  qed
next
  case (3 c v va d)
  show ?case
  proof (cases p)
    case Nil
    then show ?thesis by simp
  next
    case (Cons a as)
    show ?thesis
    proof (cases as)
      case Nil
      with Cons show ?thesis
        by (auto split: option.splits rule_node.splits)
    next
      case (Cons b bs)
      with \<open>p = a # as\<close> "3.IH" show ?thesis
        by (auto split: option.splits rule_node.splits)
    qed
  qed
qed

lemma insert_rule_ins_node:
  "r \<noteq> [] \<Longrightarrow> insert_rule r d = child_nodes (ins_node r (RuleNode b d))"
  by (induction r d arbitrary: b rule: insert_rule.induct)
     (auto split: option.splits rule_node.splits)

lemma ins_node_commute: "ins_node r1 (ins_node r2 t) = ins_node r2 (ins_node r1 t)"
proof (induction r1 arbitrary: r2 t)
  case Nil
  then show ?case by (cases t; cases r2) auto
next
  case (Cons c cs)
  obtain b ch where t: "t = RuleNode b ch" by (cases t)
  show ?case
  proof (cases r2)
    case Nil
    with t show ?thesis by simp
  next
    case (Cons c' cs')
    show ?thesis
    proof (cases "c = c'")
      case True
      with t Cons Cons.IH show ?thesis by simp
    next
      case False
      with t Cons show ?thesis by (simp add: fmupd_reorder_neq)
    qed
  qed
qed

lemma ins_node_nonempty:
  "r \<noteq> [] \<Longrightarrow> ins_node r (RuleNode b d) = RuleNode b (insert_rule r d)"
  by (induction r d arbitrary: b rule: insert_rule.induct)
     (auto split: option.splits rule_node.splits)

lemma insert_rule_commute:
  assumes "r1 \<noteq> []" "r2 \<noteq> []"
  shows "insert_rule r1 (insert_rule r2 d) = insert_rule r2 (insert_rule r1 d)"
proof -
  have "RuleNode False (insert_rule r1 (insert_rule r2 d)) =
        ins_node r1 (ins_node r2 (RuleNode False d))"
    using assms by (simp add: ins_node_nonempty)
  also have "\<dots> = ins_node r2 (ins_node r1 (RuleNode False d))"
    by (rule ins_node_commute)
  also have "\<dots> = RuleNode False (insert_rule r2 (insert_rule r1 d))"
    using assms by (simp add: ins_node_nonempty)
  finally show ?thesis by simp
qed

lemma compile_rules_fold:
  "[] \<notin> set rs \<Longrightarrow>
   compile_rules rs bound d = Inr (fold (\<lambda>r. insert_rule (rev r)) rs d)"
  by (induction rs arbitrary: bound d) auto

lemma fold_insert_permute:
  assumes "mset xs = mset ys" and "[] \<notin> set xs"
  shows "fold (\<lambda>r. insert_rule (rev r)) xs d = fold (\<lambda>r. insert_rule (rev r)) ys (d :: 'k rule_dict)"
proof -
  have "fold (\<lambda>r. insert_rule (rev r)) xs = fold (\<lambda>r. insert_rule (rev r)) ys"
  proof (rule fold_multiset_equiv)
    show "mset xs = mset ys" by (rule assms(1))
    fix x y :: "'k list"
    assume "x \<in> set xs" "y \<in> set xs"
    with assms(2) have "x \<noteq> []" "y \<noteq> []" by auto
    then show "insert_rule (rev x) \<circ> insert_rule (rev y) =
               insert_rule (rev y) \<circ> insert_rule (rev x)"
      by (auto simp: fun_eq_iff intro: insert_rule_commute)
  qed
  then show ?thesis by simp
qed

lemma load_twice:
  "load_processed_rules rules processed = Inr (t, processed') \<Longrightarrow>
   load_processed_rules rules processed' = Inr (t, processed')"
  by (auto simp: load_processed_rules_def split: if_splits sum.splits)

lemma load_order_independent:
  assumes "distinct xs" "distinct ys" "set xs = set ys" "[] \<notin> set xs"
  shows "load_processed_rules xs fmempty = load_processed_rules ys (fmempty :: 'k rule_dict)"
proof -
  have m: "mset (sorted_rules xs) = mset (sorted_rules ys)"
    using assms(1-3) by (simp add: sorted_rules_def set_eq_iff_mset_eq_distinct)
  have e: "[] \<notin> set (sorted_rules xs)" "[] \<notin> set (sorted_rules ys)"
    using assms(3,4) by (simp_all add: sorted_rules_def)
  have "compile_rules (sorted_rules xs) False fmempty =
        compile_rules (sorted_rules ys) False (fmempty :: 'k rule_dict)"
    using fold_insert_permute[OF m e(1)] by (simp add: compile_rules_fold e)
  then show ?thesis by (simp add: load_processed_rules_def)
qed

lemma terminal_at_fold:
  "[] \<notin> set rs \<Longrightarrow>
   terminal_at (fold (\<lambda>r. insert_rule (rev r)) rs d) p =
     (p \<in> rev ` set rs \<or> terminal_at d p)"
  by (induction rs arbitrary: d) (auto simp: terminal_at_insert)

section \<open>Fusion chains\<close>

lemma walk_fresh:
  "walk g u C rules n names final = Inr r \<Longrightarrow> set names \<inter> C = {} \<Longrightarrow> set final \<inter> C = {}
   \<Longrightarrow> set r \<inter> C = {}"
proof (induction g u C rules n names final rule: walk.induct)
  case (1 g u C rules n names final)
  note eq = walk.simps[of g u C rules n names final]
  show ?case
  proof (cases "fmlookup (nodes_map g) n")
    case None
    with "1.prems" show ?thesis by (simp add: eq)
  next
    case (Some cur)
    show ?thesis
    proof (cases "fmlookup rules (module_type cur)")
      case None
      with Some "1.prems" show ?thesis by (simp add: eq)
    next
      case (Some rn)
      note rn = this
      obtain st ch where rn_eq: "rn = RuleNode st ch" by (cases rn)
      show ?thesis
      proof (cases "cur_name_of g u n cur")
        case (Inl e)
        with \<open>fmlookup (nodes_map g) n = Some cur\<close> rn rn_eq "1.prems" show ?thesis by (simp add: eq)
      next
        case (Inr nm)
        show ?thesis
        proof (cases "nm \<in> C \<or> prev_nodes cur = []")
          case True
          with \<open>fmlookup (nodes_map g) n = Some cur\<close> rn rn_eq Inr "1.prems" show ?thesis
            by (auto simp: eq split: if_splits)
        next
          case False
          let ?names = "names @ [nm]"
          let ?final = "if st then ?names else final"
          have fresh: "set ?names \<inter> C = {}" "set ?final \<inter> C = {}"
            using False "1.prems" by auto
          show ?thesis
          proof (cases "length (prev_nodes cur) \<noteq> 1")
            case True
            with False \<open>fmlookup (nodes_map g) n = Some cur\<close> rn rn_eq Inr "1.prems"
            have "r = ?final" by (simp add: eq Let_def split: if_splits)
            with fresh show ?thesis by simp
          next
            case single: False
            with False \<open>fmlookup (nodes_map g) n = Some cur\<close> rn rn_eq Inr "1.prems"
            have w: "walk g u C ch (hd (prev_nodes cur)) ?names ?final = Inr r"
              by (simp add: eq Let_def split: if_splits)
            from False have nc: "nm \<notin> C" and pn: "prev_nodes cur \<noteq> []" by auto
            show ?thesis
              by (rule "1.IH"[OF \<open>fmlookup (nodes_map g) n = Some cur\<close> rn rn_eq Inr nc pn
                    refl refl single w fresh])
          qed
        qed
      qed
    qed
  qed
qed

lemma chains_disjoint_snoc:
  assumes "chains_disjoint cs" and "\<forall>c \<in> set cs. set c \<inter> set new = {}"
  shows "chains_disjoint (cs @ [new])"
  unfolding chains_disjoint_def
proof (intro allI impI)
  fix i j
  assume ij: "i < j \<and> j < length (cs @ [new])"
  show "set ((cs @ [new]) ! i) \<inter> set ((cs @ [new]) ! j) = {}"
  proof (cases "j < length cs")
    case True
    with ij assms(1) show ?thesis
      by (simp add: chains_disjoint_def nth_append)
  next
    case False
    with ij have j: "j = length cs" and i: "i < length cs" by simp_all
    from i have "cs ! i \<in> set cs" by simp
    with assms(2) have "set (cs ! i) \<inter> set new = {}" by blast
    with i j show ?thesis by (simp add: nth_append)
  qed
qed

lemma is_fusable_invariant:
  assumes "is_fusable node cd current_rules chk uo g = Inr (found, cd')"
    and "chains_consumed cd" and "chains_disjoint (fst cd)"
  shows "chains_consumed cd' \<and> chains_disjoint (fst cd')"
proof (cases "cd' = cd")
  case True
  with assms show ?thesis by simp
next
  case False
  with assms(1) obtain final_names where
    w: "walk g uo (snd cd) (the current_rules) node [] [] = Inr final_names"
    and cd': "cd' = (fst cd @ [rev final_names], snd cd \<union> set (rev final_names))"
    by (auto simp: is_fusable_def Let_def split: option.splits if_splits sum.splits)
  from walk_fresh[OF w] have fresh: "set final_names \<inter> snd cd = {}" by simp
  have "\<forall>c \<in> set (fst cd). set c \<inter> set (rev final_names) = {}"
    using assms(2) fresh unfolding chains_consumed_def by auto
  then have "chains_disjoint (fst cd @ [rev final_names])"
    using assms(3) by (rule chains_disjoint_snoc[rotated])
  moreover have "chains_consumed cd'"
    using assms(2) unfolding chains_consumed_def cd' by auto
  ultimately show ?thesis by (simp add: cd')
qed

lemma repeated_is_fusable_invariant:
  "repeated_is_fusable cs cd = Inr cd' \<Longrightarrow> chains_consumed cd \<Longrightarrow> chains_disjoint (fst cd)
   \<Longrightarrow> chains_consumed cd' \<and> chains_disjoint (fst cd')"
proof (induction cs arbitrary: cd)
  case Nil
  then show ?case by simp
next
  case (Cons c cs)
  obtain node rules chk uo g where c: "c = (node, rules, chk, uo, g)"
    by (cases c)
  from Cons.prems(1) obtain found cd1 where
    step: "is_fusable node cd rules chk uo g = Inr (found, cd1)"
    and rest: "repeated_is_fusable cs cd1 = Inr cd'"
    by (auto simp: c split: sum.splits)
  from is_fusable_invariant[OF step Cons.prems(2,3)]
  have "chains_consumed cd1" "chains_disjoint (fst cd1)" by simp_all
  with Cons.IH[OF rest] show ?case by simp
qed

lemma walk_snapshots:
  "walk g u C rules n names final =
     (case matched_chain g u C rules n of
        Inl e \<Rightarrow> Inl e
      | Inr ch \<Rightarrow> Inr (snapshots names final ch))"
proof (induction g u C rules n names final rule: walk.induct)
  case (1 g u C rules n names final)
  note eq = walk.simps[of g u C rules n names final] matched_chain.simps[of g u C rules n]
  show ?case
  proof (cases "fmlookup (nodes_map g) n")
    case None
    then show ?thesis by (simp add: eq)
  next
    case (Some cur)
    note cur = this
    show ?thesis
    proof (cases "fmlookup rules (module_type cur)")
      case None
      with cur show ?thesis by (simp add: eq)
    next
      case (Some rn)
      note rn = this
      obtain st ch where rn_eq: "rn = RuleNode st ch" by (cases rn)
      show ?thesis
      proof (cases "cur_name_of g u n cur")
        case (Inl e)
        with cur rn rn_eq show ?thesis by (simp add: eq)
      next
        case (Inr nm)
        show ?thesis
        proof (cases "nm \<in> C \<or> prev_nodes cur = [] \<or> length (prev_nodes cur) \<noteq> 1")
          case True
          with cur rn rn_eq Inr show ?thesis
            by (auto simp: eq Let_def)
        next
          case False
          then have nc: "nm \<notin> C" and pn: "prev_nodes cur \<noteq> []"
            and single: "\<not> length (prev_nodes cur) \<noteq> 1" by auto
          have ih: "walk g u C ch (hd (prev_nodes cur)) (names @ [nm])
                      (if st then names @ [nm] else final) =
                    (case matched_chain g u C ch (hd (prev_nodes cur)) of
                       Inl e \<Rightarrow> Inl e
                     | Inr c \<Rightarrow> Inr (snapshots (names @ [nm])
                                      (if st then names @ [nm] else final) c))"
            by (rule "1.IH"[OF cur rn rn_eq Inr nc pn refl refl single])
          show ?thesis
            using cur rn rn_eq Inr nc pn single ih
            by (simp add: eq Let_def split: sum.splits)
        qed
      qed
    qed
  qed
qed

lemma snapshots_no_terminal:
  "\<forall>x \<in> set ch. \<not> snd x \<Longrightarrow> snapshots names final ch = final"
  by (induction ch arbitrary: names final) auto

lemma snapshots_append_terminal:
  "snapshots names final (ch @ [(nm, True)]) = names @ map fst ch @ [nm]"
  by (induction ch arbitrary: names final) auto

lemma snapshots_append_nonterminal:
  "snapshots names final (ch @ [(nm, False)]) = snapshots names final ch"
  by (induction ch arbitrary: names final) auto

lemma snapshots_longest:
  "snapshots names final ch =
     (if \<exists>x \<in> set ch. snd x then names @ map fst (longest_terminal_prefix ch) else final)"
proof (induction ch rule: rev_induct)
  case Nil
  then show ?case by simp
next
  case (snoc x ch)
  obtain nm st where x: "x = (nm, st)" by (cases x)
  show ?case
  proof (cases st)
    case True
    with x show ?thesis
      by (simp add: snapshots_append_terminal longest_terminal_prefix_def)
  next
    case False
    with x snoc show ?thesis
      by (simp add: snapshots_append_nonterminal longest_terminal_prefix_def)
  qed
qed

lemma longest_terminal_prefix_props:
  "\<exists>k \<le> length ch. longest_terminal_prefix ch = take k ch
      \<and> (0 < k \<longrightarrow> snd (ch ! (k - 1)))
      \<and> (\<forall>i. k \<le> i \<and> i < length ch \<longrightarrow> \<not> snd (ch ! i))"
proof (induction ch rule: rev_induct)
  case Nil
  then show ?case by (simp add: longest_terminal_prefix_def)
next
  case (snoc x ch)
  show ?case
  proof (cases "snd x")
    case True
    then have "longest_terminal_prefix (ch @ [x]) = ch @ [x]"
      by (simp add: longest_terminal_prefix_def)
    with True show ?thesis
      by (intro exI[of _ "Suc (length ch)"]) auto
  next
    case False
    then have eq: "longest_terminal_prefix (ch @ [x]) = longest_terminal_prefix ch"
      by (simp add: longest_terminal_prefix_def)
    from snoc obtain k where k: "k \<le> length ch" "longest_terminal_prefix ch = take k ch"
      "0 < k \<longrightarrow> snd (ch ! (k - 1))" "\<forall>i. k \<le> i \<and> i < length ch \<longrightarrow> \<not> snd (ch ! i)"
      by blast
    show ?thesis
    proof (intro exI[of _ k] conjI allI impI)
      show "k \<le> length (ch @ [x])" using k(1) by simp
      show "longest_terminal_prefix (ch @ [x]) = take k (ch @ [x])"
        using k(1,2) eq by simp
      show "snd ((ch @ [x]) ! (k - 1))" if "0 < k"
        using that k(1,3) by (auto simp: nth_append)
      show "\<not> snd ((ch @ [x]) ! i)" if "k \<le> i \<and> i < length (ch @ [x])" for i
        using that k(4) False by (cases "i < length ch") (auto simp: nth_append)
    qed
  qed
qed

lemma load_fold:
  assumes ne: "[] \<notin> set rules"
  shows "load_processed_rules rules fmempty =
     Inr (fold (\<lambda>r. insert_rule (rev r)) (sorted_rules rules) fmempty,
          fold (\<lambda>r. insert_rule (rev r)) (sorted_rules rules) fmempty)"
proof -
  from ne have ne': "[] \<notin> set (sorted_rules rules)"
    by (simp add: sorted_rules_def)
  show ?thesis
    unfolding load_processed_rules_def compile_rules_fold[OF ne'] by simp
qed

lemma terminal_at_compiled:
  assumes ne: "[] \<notin> set rules"
  shows "terminal_at (fold (\<lambda>r. insert_rule (rev r)) (sorted_rules rules) fmempty) p
           \<longleftrightarrow> p \<in> rev ` set rules"
proof -
  from ne have ne': "[] \<notin> set (sorted_rules rules)"
    by (simp add: sorted_rules_def)
  have "set (sorted_rules rules) = set rules"
    by (simp add: sorted_rules_def)
  then show ?thesis
    by (simp add: terminal_at_fold[OF ne'])
qed

lemma load_singleton:
  "load_processed_rules [[A, B, C]] fmempty =
     Inr (fmupd C (RuleNode False (fmupd B (RuleNode False
            (fmupd A (RuleNode True fmempty) fmempty)) fmempty)) fmempty,
          fmupd C (RuleNode False (fmupd B (RuleNode False
            (fmupd A (RuleNode True fmempty) fmempty)) fmempty)) fmempty)"
  by (simp add: load_processed_rules_def sorted_rules_def)

lemma singleton_path_flags:
  "trie_flags (fmupd C (RuleNode False (fmupd B (RuleNode False
      (fmupd A (RuleNode True fmempty) fmempty)) fmempty)) fmempty) [C, B, A] =
   [False, False, True]"
  by simp

lemma longest_terminal_prefix_nonempty:
  "(\<exists>x \<in> set ch. snd x) \<longleftrightarrow> longest_terminal_prefix ch \<noteq> []"
  by (auto simp: longest_terminal_prefix_def dropWhile_eq_Nil_conv)

lemma walk_longest:
  assumes "matched_chain g u C rules node = Inr ch"
  shows "walk g u C rules node [] [] = Inr (map fst (longest_terminal_prefix ch))"
proof -
  have "walk g u C rules node [] [] = Inr (snapshots [] [] ch)"
    by (simp only: walk_snapshots assms sum.case)
  also have "snapshots [] [] ch = map fst (longest_terminal_prefix ch)"
    using longest_terminal_prefix_nonempty[of ch] by (simp add: snapshots_longest)
  finally show ?thesis .
qed

section \<open>Propagation\<close>

lemma same_structure_refl [simp]: "same_structure g g"
  by (simp add: same_structure_def)

lemma same_structure_trans:
  assumes "same_structure g g'" and "same_structure g' g''"
  shows "same_structure g g''"
proof -
  note a = assms(1)[unfolded same_structure_def] and b = assms(2)[unfolded same_structure_def]
  have "input_nodes g'' = input_nodes g" using a b by metis
  moreover have "output_nodes g'' = output_nodes g" using a b by metis
  moreover have "constant_nodes g'' = constant_nodes g" using a b by metis
  moreover have "forward_nodes g'' = forward_nodes g" using a b by metis
  moreover have "module_original_name_dict g'' = module_original_name_dict g"
    using a b by metis
  moreover have "map_option erase (fmlookup (nodes_map g'') k) =
                 map_option erase (fmlookup (nodes_map g) k)" for k
    using a b by metis
  ultimately show ?thesis
    unfolding same_structure_def by blast
qed

lemma same_structure_mark_graph [simp]: "same_structure g (mark_graph g q)"
  by (simp add: same_structure_def mark_graph_def)

lemma erase_eq_fields:
  assumes "erase a = erase b"
  shows "module_type a = module_type b" "next_nodes a = next_nodes b"
    "next_tensors a = next_tensors b" "full_name a = full_name b"
    "prev_nodes a = prev_nodes b" "module_id a = module_id b"
proof -
  have "module_type (erase a) = module_type (erase b)" "next_nodes (erase a) = next_nodes (erase b)"
    "next_tensors (erase a) = next_tensors (erase b)" "full_name (erase a) = full_name (erase b)"
    "prev_nodes (erase a) = prev_nodes (erase b)" "module_id (erase a) = module_id (erase b)"
    using assms by simp_all
  then show "module_type a = module_type b" "next_nodes a = next_nodes b"
    "next_tensors a = next_tensors b" "full_name a = full_name b"
    "prev_nodes a = prev_nodes b" "module_id a = module_id b"
    by (simp_all add: erase_def)
qed

lemma same_structure_lookup:
  assumes "same_structure g g'" and "fmlookup (nodes_map g) k = Some n"
  shows "\<exists>n'. fmlookup (nodes_map g') k = Some n' \<and> erase n' = erase n"
proof -
  from assms have "map_option erase (fmlookup (nodes_map g') k) = Some (erase n)"
    by (simp add: same_structure_def)
  then show ?thesis
    by (cases "fmlookup (nodes_map g') k") auto
qed

lemma same_structure_erase:
  assumes "same_structure g g'"
  shows "map_option erase (fmlookup (nodes_map g') k) = map_option erase (fmlookup (nodes_map g) k)"
proof -
  from assms have "\<forall>k. map_option erase (fmlookup (nodes_map g') k) =
              map_option erase (fmlookup (nodes_map g) k)"
    unfolding same_structure_def by (elim conjE)
  then show ?thesis by (rule spec)
qed

lemma same_structure_none:
  assumes "same_structure g g'" and "fmlookup (nodes_map g) k = None"
  shows "fmlookup (nodes_map g') k = None"
proof -
  have "map_option erase (fmlookup (nodes_map g') k) = None"
    by (simp only: same_structure_erase[OF assms(1)] assms(2) option.map)
  then show ?thesis by (simp only: map_option_is_None)
qed

lemma same_structure_succs:
  assumes "same_structure g g'"
  shows "succs g' = succs g"
proof (rule ext)
  fix p
  show "succs g' p = succs g p"
  proof (cases "fmlookup (nodes_map g) p")
    case None
    with same_structure_none[OF assms None] show ?thesis
      by (simp only: succs_def option.case)
  next
    case (Some n)
    from same_structure_lookup[OF assms Some] obtain n' where
      n': "fmlookup (nodes_map g') p = Some n'" and e: "erase n' = erase n" by (elim exE conjE)
    show ?thesis
      by (simp only: succs_def Some n' option.case erase_eq_fields(2)[OF e])
  qed
qed

lemma same_structure_write:
  assumes "fmlookup (nodes_map g) k = Some n"
  shows "same_structure g (g\<lparr>nodes_map := fmupd k (n\<lparr>node.quantized := f\<rparr>) (nodes_map g)\<rparr>)"
proof -
  have "map_option erase (fmlookup (fmupd k (n\<lparr>node.quantized := f\<rparr>) (nodes_map g)) j) =
        map_option erase (fmlookup (nodes_map g) j)" for j
    using assms by (cases "j = k") (simp_all add: erase_def)
  then show ?thesis
    unfolding same_structure_def by simp
qed

lemma qat_analysis_cases:
  assumes "qat_analysis g visited node flag = Inr (g', visited', new)"
  obtains (seen) "node \<in> visited" "g' = g" "visited' = visited" "new = []"
  | (at_output) n where "node \<notin> visited" "fmlookup (nodes_map g) node = Some n"
      "node \<in> set (output_nodes g)" "g' = g" "visited' = insert node visited" "new = []"
  | (fresh) n f out where "node \<notin> visited" "fmlookup (nodes_map g) node = Some n"
      "node \<notin> set (output_nodes g)"
      "g' = g\<lparr>nodes_map := fmupd node (n\<lparr>node.quantized := f\<rparr>) (nodes_map g)\<rparr>"
      "visited' = insert node visited" "new = map (\<lambda>m. (m, out)) (next_nodes n)"
      "f = (if module_type n = QuantStub \<or> module_type n = DeQuantStub then True else flag)"
      "out = (if module_type n = QuantStub then True
              else if module_type n = DeQuantStub then False else flag)"
proof (cases "node \<in> visited")
  case True
  with assms show ?thesis by (intro seen) (simp_all add: qat_analysis_def)
next
  case nv: False
  with assms obtain n where n: "fmlookup (nodes_map g) node = Some n"
    by (cases "fmlookup (nodes_map g) node") (simp_all add: qat_analysis_def)
  show ?thesis
  proof (cases "node \<in> set (output_nodes g)")
    case True
    with assms nv n show ?thesis by (intro at_output[of n]) (simp_all add: qat_analysis_def)
  next
    case no: False
    show ?thesis
    proof (rule fresh[OF nv n no])
      show "g' = g\<lparr>nodes_map := fmupd node
              (n\<lparr>node.quantized := (if module_type n = QuantStub \<or> module_type n = DeQuantStub
                                       then True else flag)\<rparr>) (nodes_map g)\<rparr>"
        using assms nv n no by (simp add: qat_analysis_def split: if_splits)
      show "visited' = insert node visited"
        using assms nv n no by (simp add: qat_analysis_def split: if_splits)
      show "new = map (\<lambda>m. (m, (if module_type n = QuantStub then True
              else if module_type n = DeQuantStub then False else flag))) (next_nodes n)"
        using assms nv n no by (simp add: qat_analysis_def split: if_splits)
    qed (rule refl)+
  qed
qed

lemma qat_analysis_same_structure:
  assumes "qat_analysis g visited node flag = Inr (g', visited', new)"
  shows "same_structure g g'"
  using assms
proof (cases rule: qat_analysis_cases)
  case (fresh n f out)
  then show ?thesis by (simp add: same_structure_write)
qed simp_all

lemma loop_same_structure:
  "qat_analysis_loop g queue visited = Inr g' \<Longrightarrow> same_structure g g'"
proof (induction g queue visited rule: qat_analysis_loop.induct)
  case (1 g visited)
  then show ?case by simp
next
  case (2 g node flag rest visited)
  from "2.prems" obtain g1 visited1 new where
    st: "qat_analysis (mark_graph g flag) visited node flag = Inr (g1, visited1, new)"
    and rest: "qat_analysis_loop g1 (rest @ new) visited1 = Inr g'"
    by (auto simp: qat_analysis_loop.simps(2) split: sum.splits)
  have "same_structure g1 g'"
    by (rule "2.IH"[OF st refl refl rest])
  moreover have "same_structure (mark_graph g flag) g1"
    by (rule qat_analysis_same_structure[OF st])
  ultimately show ?case
    using same_structure_mark_graph[of g flag] by (blast intro: same_structure_trans)
qed

lemma output_nodes_mark_graph [simp]: "output_nodes (mark_graph g q) = output_nodes g"
  by (simp add: mark_graph_def)

lemma loop_step:
  assumes "qat_analysis_loop g ((node, flag) # rest) visited = Inr g'"
  obtains g1 visited1 new where
    "qat_analysis (mark_graph g flag) visited node flag = Inr (g1, visited1, new)"
    "qat_analysis_loop g1 (rest @ new) visited1 = Inr g'"
  using assms
  by (auto simp: qat_analysis_loop.simps(2) split: sum.splits)

lemma loop_keeps_visited:
  "qat_analysis_loop g queue visited = Inr g' \<Longrightarrow> k \<in> visited
   \<Longrightarrow> fmlookup (nodes_map g') k = fmlookup (nodes_map g) k"
proof (induction g queue visited rule: qat_analysis_loop.induct)
  case (1 g visited)
  then show ?case by simp
next
  case (2 g node flag rest visited)
  from "2.prems"(1) obtain g1 visited1 new where
    st: "qat_analysis (mark_graph g flag) visited node flag = Inr (g1, visited1, new)"
    and rest: "qat_analysis_loop g1 (rest @ new) visited1 = Inr g'"
    by (rule loop_step)
  from st have sub: "visited \<subseteq> visited1"
    and same: "fmlookup (nodes_map g1) k = fmlookup (nodes_map g) k"
    using "2.prems"(2) by (cases rule: qat_analysis_cases; auto)+
  have "fmlookup (nodes_map g') k = fmlookup (nodes_map g1) k"
    using "2.IH"[OF st refl refl rest] sub "2.prems"(2) by blast
  with same show ?case by simp
qed

lemma loop_keeps_outputs:
  "qat_analysis_loop g queue visited = Inr g' \<Longrightarrow> k \<in> set (output_nodes g)
   \<Longrightarrow> fmlookup (nodes_map g') k = fmlookup (nodes_map g) k"
proof (induction g queue visited rule: qat_analysis_loop.induct)
  case (1 g visited)
  then show ?case by simp
next
  case (2 g node flag rest visited)
  from "2.prems"(1) obtain g1 visited1 new where
    st: "qat_analysis (mark_graph g flag) visited node flag = Inr (g1, visited1, new)"
    and rest: "qat_analysis_loop g1 (rest @ new) visited1 = Inr g'"
    by (rule loop_step)
  from st have outs: "output_nodes g1 = output_nodes g"
    and same: "fmlookup (nodes_map g1) k = fmlookup (nodes_map g) k"
    using "2.prems"(2) by (cases rule: qat_analysis_cases; auto)+
  have "fmlookup (nodes_map g') k = fmlookup (nodes_map g1) k"
    using "2.IH"[OF st refl refl rest] outs "2.prems"(2) by simp
  with same show ?case by simp
qed

lemma qat_analysis_graph_quantized:
  assumes "qat_analysis g visited node flag = Inr (g', visited', new)"
  shows "graph.quantized g' = graph.quantized g"
  using assms by (cases rule: qat_analysis_cases) simp_all

lemma loop_quantized_mono:
  "qat_analysis_loop g queue visited = Inr g' \<Longrightarrow> graph.quantized g \<Longrightarrow> graph.quantized g'"
proof (induction g queue visited rule: qat_analysis_loop.induct)
  case (1 g visited)
  then show ?case by simp
next
  case (2 g node flag rest visited)
  from "2.prems"(1) obtain g1 visited1 new where
    st: "qat_analysis (mark_graph g flag) visited node flag = Inr (g1, visited1, new)"
    and rest: "qat_analysis_loop g1 (rest @ new) visited1 = Inr g'"
    by (rule loop_step)
  have "graph.quantized g1"
    using qat_analysis_graph_quantized[OF st] "2.prems"(2) by (simp add: mark_graph_def)
  then show ?case
    by (rule "2.IH"[OF st refl refl rest])
qed

lemma mark_graph_idle:
  assumes "flag \<longrightarrow> graph.quantized g"
  shows "mark_graph g flag = g"
proof (cases "graph.quantized g")
  case True
  then show ?thesis by (simp add: mark_graph_def)
next
  case False
  with assms have "\<not> flag" by blast
  then have "g\<lparr>graph.quantized := graph.quantized g \<or> flag\<rparr> = g" by simp
  with False show ?thesis by (simp add: mark_graph_def)
qed

lemma write_idle:
  assumes "fmlookup (nodes_map g) k = Some n" and "node.quantized n = f"
  shows "g\<lparr>nodes_map := fmupd k (n\<lparr>node.quantized := f\<rparr>) (nodes_map g)\<rparr> = g"
proof -
  have n: "n\<lparr>node.quantized := f\<rparr> = n"
    using assms(2) by simp
  have "fmupd k n (nodes_map g) = nodes_map g"
  proof (rule fmap_ext)
    fix j
    show "fmlookup (fmupd k n (nodes_map g)) j = fmlookup (nodes_map g) j"
      using assms(1) by (cases "j = k") simp_all
  qed
  then show ?thesis by (simp add: n)
qed

lemma loop_idempotent:
  "qat_analysis_loop g queue visited = Inr g' \<Longrightarrow> qat_analysis_loop g' queue visited = Inr g'"
proof (induction g queue visited rule: qat_analysis_loop.induct)
  case (1 g visited)
  then show ?case by simp
next
  case (2 g node flag rest visited)
  from "2.prems"(1) obtain g1 visited1 new where
    st: "qat_analysis (mark_graph g flag) visited node flag = Inr (g1, visited1, new)"
    and rest: "qat_analysis_loop g1 (rest @ new) visited1 = Inr g'"
    by (rule loop_step)
  have ih: "qat_analysis_loop g' (rest @ new) visited1 = Inr g'"
    by (rule "2.IH"[OF st refl refl rest])
  have s1: "same_structure g1 g'"
    by (rule loop_same_structure[OF rest])
  have "flag \<longrightarrow> graph.quantized g1"
    using qat_analysis_graph_quantized[OF st] by (simp add: mark_graph_def)
  then have "flag \<longrightarrow> graph.quantized g'"
    using loop_quantized_mono[OF rest] by blast
  then have mark: "mark_graph g' flag = g'"
    by (rule mark_graph_idle)
  have outs: "output_nodes g' = output_nodes g1"
    using s1 by (simp add: same_structure_def)
  have again: "qat_analysis g' visited node flag = Inr (g', visited1, new)"
    using st
  proof (cases rule: qat_analysis_cases)
    case seen
    then show ?thesis by (simp add: qat_analysis_def)
  next
    case (at_output n)
    then have "fmlookup (nodes_map g1) node = Some n" by simp
    from same_structure_lookup[OF s1 this] obtain n' where
      "fmlookup (nodes_map g') node = Some n'" by blast
    with at_output outs show ?thesis by (simp add: qat_analysis_def)
  next
    case (fresh n f out)
    let ?n1 = "n\<lparr>node.quantized := f\<rparr>"
    from fresh have l1: "fmlookup (nodes_map g1) node = Some ?n1" by simp
    have "node \<in> visited1" using fresh by simp
    from loop_keeps_visited[OF rest this] l1
    have l': "fmlookup (nodes_map g') node = Some ?n1" by simp
    have q: "node.quantized ?n1 = f" by simp
    have idle: "g'\<lparr>nodes_map := fmupd node (?n1\<lparr>node.quantized := f\<rparr>) (nodes_map g')\<rparr> = g'"
      by (rule write_idle[OF l' q])
    have no: "node \<notin> set (output_nodes g')"
      using fresh outs by simp
    show ?thesis
    proof (cases "module_type n = QuantStub")
      case True
      with fresh have "f = True" "out = True" by simp_all
      with True fresh(1,5,6) l' no idle show ?thesis
        by (simp add: qat_analysis_def)
    next
      case nq: False
      show ?thesis
      proof (cases "module_type n = DeQuantStub")
        case True
        with nq fresh have "f = True" "out = False" by simp_all
        with True nq fresh(1,5,6) l' no idle show ?thesis
          by (simp add: qat_analysis_def)
      next
        case False
        with nq fresh have "f = flag" "out = flag" by simp_all
        with False nq fresh(1,5,6) l' no idle show ?thesis
          by (simp add: qat_analysis_def)
      qed
    qed
  qed
  show ?case
    by (simp add: qat_analysis_loop.simps(2) mark again ih)
qed

lemma erased_lookup_cases:
  assumes "map_option erase (fmlookup m' k) = map_option erase (fmlookup m k)"
  obtains (absent) "fmlookup m k = None" "fmlookup m' k = None"
  | (present) n n' where "fmlookup m k = Some n" "fmlookup m' k = Some n'" "erase n' = erase n"
proof (cases "fmlookup m k")
  case None
  with assms have "fmlookup m' k = None" by simp
  with None show ?thesis by (rule absent)
next
  case (Some n)
  with assms have "map_option erase (fmlookup m' k) = Some (erase n)" by simp
  then obtain n' where "fmlookup m' k = Some n'" "erase n' = erase n"
    by (cases "fmlookup m' k") auto
  with Some show ?thesis by (rule present)
qed

lemma filter_nodes_cong:
  assumes "\<And>k. map_option erase (fmlookup m' k) = map_option erase (fmlookup m k)"
    and "\<And>a b. erase a = erase b \<Longrightarrow> P a = P b"
  shows "filter_nodes m' P ks = filter_nodes m P ks"
proof (induction ks)
  case Nil
  then show ?case by simp
next
  case (Cons k ks)
  from assms(1)[of k] show ?case
  proof (cases rule: erased_lookup_cases)
    case absent
    then show ?thesis by simp
  next
    case (present n n')
    with assms(2)[OF present(3)] Cons.IH show ?thesis by (simp split: sum.splits)
  qed
qed

lemma constant_seeds_cong:
  assumes "\<And>k. map_option erase (fmlookup m' k) = map_option erase (fmlookup m k)"
  shows "constant_seeds m' ks = constant_seeds m ks"
proof (induction ks)
  case Nil
  then show ?case by simp
next
  case (Cons k ks)
  from assms[of k] show ?case
  proof (cases rule: erased_lookup_cases)
    case absent
    then show ?thesis by simp
  next
    case (present n n')
    have "next_tensors n' = next_tensors n"
      by (rule erase_eq_fields(3)[OF present(3)])
    with present Cons.IH show ?thesis by (simp split: sum.splits list.splits)
  qed
qed

lemma seeds_cong:
  assumes "same_structure g g'"
  shows "seeds creation_func_names g' input_quantized = seeds creation_func_names g input_quantized"
proof -
  have e: "\<And>k. map_option erase (fmlookup (nodes_map g') k) =
               map_option erase (fmlookup (nodes_map g) k)"
    by (rule same_structure_erase[OF assms])
  have lists: "input_nodes g' = input_nodes g" "constant_nodes g' = constant_nodes g"
    "forward_nodes g' = forward_nodes g"
    using assms by (simp_all add: same_structure_def)
  have i: "input_seeds g' input_quantized = input_seeds g input_quantized"
    by (simp add: input_seeds_def lists split: option.splits)
  have f: "filter_forward_nodes g' (\<lambda>n. full_name n \<in> set creation_func_names) =
           filter_forward_nodes g (\<lambda>n. full_name n \<in> set creation_func_names)"
    unfolding filter_forward_nodes_def lists
    by (rule filter_nodes_cong[OF e]) (drule erase_eq_fields(4), simp)
  have c: "constant_seeds (nodes_map g') ks = constant_seeds (nodes_map g) ks" for ks
    by (rule constant_seeds_cong[OF e])
  show ?thesis
    unfolding seeds_def i f c lists ..
qed

section \<open>Claims on the fusion matcher and the rule compiler\<close>

text \<open>
  C4. Compiling a rule set gives the same dictionary every time: a second call of the loader
  returns the dictionary of the first, and two iteration orders of one set of non-empty rules
  compile to equal dictionaries. A rule is entered with its types reversed: the paths that
  end on a terminal flag are exactly the reversed rules. For the single rule \<open>(A, B, C)\<close> the
  lookup path \<open>C, B, A\<close> meets the flags false, false, true.
\<close>

theorem rule_trie_compilation:
  "(load_processed_rules rules processed = Inr (t, processed') \<longrightarrow>
      load_processed_rules rules processed' = Inr (t, processed'))
   \<and> (distinct xs \<and> distinct ys \<and> set xs = set ys \<and> [] \<notin> set xs \<longrightarrow>
      load_processed_rules xs fmempty = load_processed_rules ys fmempty)
   \<and> ([] \<notin> set rules \<longrightarrow>
      (\<exists>d. load_processed_rules rules fmempty = Inr (d, d)
           \<and> (\<forall>p. terminal_at d p \<longleftrightarrow> p \<in> rev ` set rules)))
   \<and> (\<exists>d. load_processed_rules [[A, B, C]] fmempty = Inr (d, d)
           \<and> trie_flags d [C, B, A] = [False, False, True])"
proof (intro conjI impI)
  assume "load_processed_rules rules processed = Inr (t, processed')"
  then show "load_processed_rules rules processed' = Inr (t, processed')"
    by (rule load_twice)
next
  assume a: "distinct xs \<and> distinct ys \<and> set xs = set ys \<and> [] \<notin> set xs"
  show "load_processed_rules xs fmempty = load_processed_rules ys fmempty"
    using a load_order_independent[of xs ys] by blast
next
  assume ne: "[] \<notin> set rules"
  show "\<exists>d. load_processed_rules rules fmempty = Inr (d, d)
      \<and> (\<forall>p. terminal_at d p \<longleftrightarrow> p \<in> rev ` set rules)"
    using load_fold[OF ne] terminal_at_compiled[OF ne] by blast
next
  show "\<exists>d. load_processed_rules [[A, B, C]] fmempty = Inr (d, d)
      \<and> trie_flags d [C, B, A] = [False, False, True]"
    using load_singleton[of A B C] singleton_path_flags[of C B A] by blast
qed

theorem rule_trie_compilation_witness:
  "load_processed_rules [[1::nat, 2], [3]] fmempty =
     Inr (fmupd 3 (RuleNode True fmempty)
            (fmupd 2 (RuleNode False (fmupd 1 (RuleNode True fmempty) fmempty)) fmempty),
          fmupd 3 (RuleNode True fmempty)
            (fmupd 2 (RuleNode False (fmupd 1 (RuleNode True fmempty) fmempty)) fmempty))
   \<and> load_processed_rules [[1::nat, 2], [3]]
       (fmupd 3 (RuleNode True fmempty)
            (fmupd 2 (RuleNode False (fmupd 1 (RuleNode True fmempty) fmempty)) fmempty)) =
     Inr (fmupd 3 (RuleNode True fmempty)
            (fmupd 2 (RuleNode False (fmupd 1 (RuleNode True fmempty) fmempty)) fmempty),
          fmupd 3 (RuleNode True fmempty)
            (fmupd 2 (RuleNode False (fmupd 1 (RuleNode True fmempty) fmempty)) fmempty))
   \<and> distinct [[1::nat, 2], [3]] \<and> distinct [[3], [1::nat, 2]]
   \<and> set [[1::nat, 2], [3]] = set [[3], [1, 2]] \<and> [] \<notin> set [[1::nat, 2], [3]]
   \<and> load_processed_rules [[1::nat, 2], [3]] fmempty =
       load_processed_rules [[3], [1, 2]] fmempty"
proof -
  let ?d = "fmupd 3 (RuleNode True fmempty)
            (fmupd (2::nat) (RuleNode False (fmupd 1 (RuleNode True fmempty) fmempty)) fmempty)"
  have first: "load_processed_rules [[1::nat, 2], [3]] fmempty = Inr (?d, ?d)"
    by (simp add: load_processed_rules_def sorted_rules_def)
  have s1: "distinct [[1::nat, 2], [3]]" and s2: "distinct [[3], [1::nat, 2]]"
    and s3: "set [[1::nat, 2], [3]] = set [[3], [1, 2]]" and s4: "[] \<notin> set [[1::nat, 2], [3]]"
    by auto
  note sets = conjI[OF s1 conjI[OF s2 conjI[OF s3 s4]]]
  note inst = rule_trie_compilation
         [of "[[1::nat, 2], [3]]" fmempty ?d ?d "[[1::nat, 2], [3]]" "[[3], [1::nat, 2]]"]
  have second: "load_processed_rules [[1::nat, 2], [3]] ?d = Inr (?d, ?d)"
    by (rule mp[OF conjunct1[OF inst] first])
  have third: "load_processed_rules [[1::nat, 2], [3]] fmempty =
         load_processed_rules [[3], [1::nat, 2]] fmempty"
    by (rule mp[OF conjunct1[OF conjunct2[OF inst]] sets])
  show ?thesis
    by (intro conjI first second s1 s2 s3 s4 third)
qed

text \<open>
  C2. Over any sequence of calls of \<^verbatim>\<open>is_fusable\<close> that starts from the empty
  \<^verbatim>\<open>custom_data\<close> and hands it from call to call, whatever the nodes, graphs, rule
  dictionaries and flags of the calls, no name occurs in two of the returned chains.
\<close>

theorem fusion_chains_share_no_name:
  "repeated_is_fusable calls ([], {}) = Inr (fused, consumed) \<Longrightarrow>
   i < j \<Longrightarrow> j < length fused \<Longrightarrow> set (fused ! i) \<inter> set (fused ! j) = {}"
  using repeated_is_fusable_invariant[of calls "([], {})" "(fused, consumed)"]
  by (simp add: chains_consumed_def chains_disjoint_def)

theorem fusion_chains_share_no_name_witness:
  "repeated_is_fusable example_calls ([], {}) =
     Inr ([[''conv2'', ''relu2''], [''conv1'', ''bn1'', ''relu1'']],
          {''relu2'', ''conv2'', ''conv1'', ''bn1'', ''relu1''})
   \<and> (0::nat) < 1
   \<and> 1 < length [[''conv2'', ''relu2''], [''conv1'', ''bn1'', ''relu1'']]
   \<and> set ([[''conv2'', ''relu2''], [''conv1'', ''bn1'', ''relu1'']] ! 0)
       \<inter> set ([[''conv2'', ''relu2''], [''conv1'', ''bn1'', ''relu1'']] ! 1) = {}"
proof -
  have run: "repeated_is_fusable example_calls ([], {}) =
     Inr ([[''conv2'', ''relu2''], [''conv1'', ''bn1'', ''relu1'']],
          {''relu2'', ''conv2'', ''conv1'', ''bn1'', ''relu1''})"
    by code_simp
  have len: "1 < length [[''conv2'', ''relu2''], [''conv1'', ''bn1'', ''relu1'']]"
    by simp
  from fusion_chains_share_no_name[OF run zero_less_one len] run show ?thesis
    by simp
qed

text \<open>
  C3, as the code has it. The loop appends a node to the chain when its type is a key of the
  current dictionary, its name is not consumed and it has at least one predecessor
  (\<open>matched_chain\<close> lists these nodes with their terminal flags). Every terminal flag met
  replaces the best match by the chain so far, so the match returned is the longest prefix of
  the chain that ends on a terminal flag, a shorter one never replacing a longer one; it is
  returned reversed, earliest node first, and there is no match when no flag is set.
\<close>

theorem longest_terminal_match_wins:
  assumes "fmlookup (nodes_map g) node = Some n"
    and "check_node_quantized \<longrightarrow> node.quantized n"
    and "matched_chain g use_original_name (snd custom_data) rules node = Inr ch"
  shows "is_fusable node custom_data (Some rules) check_node_quantized use_original_name g =
           (if \<exists>x \<in> set ch. snd x then
              Inr (True, (fst custom_data @ [rev (map fst (longest_terminal_prefix ch))],
                          snd custom_data \<union> set (map fst (longest_terminal_prefix ch))))
            else Inr (False, custom_data))
         \<and> (\<exists>k \<le> length ch. longest_terminal_prefix ch = take k ch
                \<and> (0 < k \<longrightarrow> snd (ch ! (k - 1)))
                \<and> (\<forall>i. k \<le> i \<and> i < length ch \<longrightarrow> \<not> snd (ch ! i)))"
proof
  show "is_fusable node custom_data (Some rules) check_node_quantized use_original_name g =
           (if \<exists>x \<in> set ch. snd x then
              Inr (True, (fst custom_data @ [rev (map fst (longest_terminal_prefix ch))],
                          snd custom_data \<union> set (map fst (longest_terminal_prefix ch))))
            else Inr (False, custom_data))"
    using assms(1,2) longest_terminal_prefix_nonempty[of ch]
    by (auto simp: is_fusable_def walk_longest[OF assms(3)] Let_def)
  show "\<exists>k \<le> length ch. longest_terminal_prefix ch = take k ch
                \<and> (0 < k \<longrightarrow> snd (ch ! (k - 1)))
                \<and> (\<forall>i. k \<le> i \<and> i < length ch \<longrightarrow> \<not> snd (ch ! i))"
    by (rule longest_terminal_prefix_props)
qed

theorem longest_terminal_match_wins_witness:
  "fmlookup (nodes_map example_graph) ''relu_0'' =
     Some (example_node 3 (ModuleClass ''ReLU'') [''bn_0''] [''conv_1''])
   \<and> node.quantized (example_node 3 (ModuleClass ''ReLU'') [''bn_0''] [''conv_1''])
   \<and> matched_chain example_graph True (snd ([], {})) example_rules ''relu_0'' =
       Inr [(''relu1'', False), (''bn1'', True), (''conv1'', True)]
   \<and> is_fusable ''relu_0'' ([], {}) (Some example_rules) True True example_graph =
       Inr (True, ([[''conv1'', ''bn1'', ''relu1'']], {''relu1'', ''bn1'', ''conv1''}))"
proof -
  have look: "fmlookup (nodes_map example_graph) ''relu_0'' =
     Some (example_node 3 (ModuleClass ''ReLU'') [''bn_0''] [''conv_1''])"
    by (simp add: example_graph_def)
  have quant': "node.quantized (example_node 3 (ModuleClass ''ReLU'') [''bn_0''] [''conv_1''])"
    by (simp add: example_node_def)
  then have quant:
    "True \<longrightarrow> node.quantized (example_node 3 (ModuleClass ''ReLU'') [''bn_0''] [''conv_1''])"
    by simp
  have chain: "matched_chain example_graph True (snd ([], {})) example_rules ''relu_0'' =
       Inr [(''relu1'', False), (''bn1'', True), (''conv1'', True)]"
    by code_simp
  have ltp: "longest_terminal_prefix [(''relu1'', False), (''bn1'', True), (''conv1'', True)] =
       [(''relu1'', False), (''bn1'', True), (''conv1'', True)]"
    by (simp add: longest_terminal_prefix_def)
  have "is_fusable ''relu_0'' ([], {}) (Some example_rules) True True example_graph =
       Inr (True, ([[''conv1'', ''bn1'', ''relu1'']], {''relu1'', ''bn1'', ''conv1''}))"
    using conjunct1[OF longest_terminal_match_wins[OF look quant chain]]
    by (simp add: ltp)
  with look quant' chain show ?thesis by (intro conjI)
qed

text \<open>
  C3 as stated fails where the terminal entry is reached at a node without predecessors:
  for \<^verbatim>\<open>conv -> relu\<close> with a convolution that has no predecessor, the path
  \<^verbatim>\<open>ReLU, Conv2d\<close> ends on a terminal flag of the compiled rules, yet the loop leaves
  before recording the match and \<^verbatim>\<open>is_fusable\<close> reports nothing.
\<close>

theorem longest_terminal_match_counterexample:
  "map (\<lambda>n. map_option module_type (fmlookup (nodes_map headless_graph) n)) [''relu_0'', ''conv_0'']
     = [Some (ModuleClass ''ReLU''), Some (ModuleClass ''Conv2d'')]
   \<and> map_option prev_nodes (fmlookup (nodes_map headless_graph) ''relu_0'') = Some [''conv_0'']
   \<and> trie_flags example_rules [ModuleClass ''ReLU'', ModuleClass ''Conv2d''] = [False, True]
   \<and> is_fusable ''relu_0'' ([], {}) (Some example_rules) True True headless_graph =
       Inr (False, ([], {}))"
  by code_simp

section \<open>Claims on the propagation\<close>

text \<open>
  C9. The analysis is a function of the graph, of \<^verbatim>\<open>is_input_quantized\<close> and of the
  creation-function names, so two runs from one graph agree. Moreover, run again on the
  graph that a first run left behind, with the same seeding, it returns that very graph:
  every \<^verbatim>\<open>node.quantized\<close> flag and \<^verbatim>\<open>graph.quantized\<close> are as after the first run.
\<close>

theorem propagation_twice_same_flags:
  assumes "prepare_qat_prep creation_func_names g input_quantized = Inr g'"
  shows "prepare_qat_prep creation_func_names g' input_quantized = Inr g'"
proof -
  from assms obtain queue where
    q: "seeds creation_func_names g input_quantized = Inr queue"
    and l: "qat_analysis_loop g queue {} = Inr g'"
    by (auto simp: prepare_qat_prep_def split: sum.splits)
  have "same_structure g g'"
    by (rule loop_same_structure[OF l])
  then have "seeds creation_func_names g' input_quantized = Inr queue"
    using q by (simp add: seeds_cong)
  with loop_idempotent[OF l] show ?thesis
    by (simp add: prepare_qat_prep_def)
qed

theorem propagation_twice_same_flags_witness:
  "prepare_qat_prep [] (stub_graph False False False False False False) None =
     Inr (stub_graph False True True True False True)
   \<and> prepare_qat_prep [] (stub_graph False True True True False True) None =
     Inr (stub_graph False True True True False True)"
proof -
  have first: "prepare_qat_prep [] (stub_graph False False False False False False) None =
     Inr (stub_graph False True True True False True)"
    by code_simp
  from first propagation_twice_same_flags[OF first] show ?thesis
    by (rule conjI)
qed

end
